theory Spec2Isabelle
  imports Complex_Main
begin

section \<open>Data model\<close>

text \<open>
  The game logic of \<^verbatim>\<open>lib/game\<close>. A mark is one of the strings \<^verbatim>\<open>'X'\<close> and \<^verbatim>\<open>'O'\<close>
  (the constructors carry a prefix because \<open>O\<close> is relation composition in HOL); a cell
  is a mark or \<^verbatim>\<open>null\<close>; a board is an array of cells.
\<close>

datatype Mark = MarkX | MarkO

type_synonym Cell = "Mark option"

text \<open>The object \<^verbatim>\<open>{ winner, line }\<close> returned by \<^verbatim>\<open>getWinner\<close>; \<open>None\<close> is \<^verbatim>\<open>null\<close>.\<close>

record outcome =
  winner :: "Mark option"
  line :: "nat list option"

text \<open>
  Scores are JavaScript numbers: integers, and the two infinities with which the loops
  of \<^verbatim>\<open>minimax\<close> and \<^verbatim>\<open>getBestMove\<close> start. The order is that of \<^verbatim>\<open><\<close> and
  \<^verbatim>\<open>Math.max\<close>/\<^verbatim>\<open>Math.min\<close> on such numbers.
\<close>

datatype number = NegInfinity | Val int | PosInfinity

instantiation number :: linorder
begin

fun less_eq_number :: "number \<Rightarrow> number \<Rightarrow> bool" where
  "less_eq_number NegInfinity _ = True"
| "less_eq_number _ PosInfinity = True"
| "less_eq_number (Val a) (Val b) = (a \<le> b)"
| "less_eq_number _ _ = False"

definition less_number :: "number \<Rightarrow> number \<Rightarrow> bool" where
  "less_number a b = (a \<le> b \<and> \<not> b \<le> a)"

instance
proof
  fix x y z :: number
  show "(x < y) = (x \<le> y \<and> \<not> y \<le> x)" by (simp add: less_number_def)
  show "x \<le> x" by (cases x) simp_all
  show "x \<le> y \<Longrightarrow> y \<le> z \<Longrightarrow> x \<le> z" by (cases x; cases y; cases z) simp_all
  show "x \<le> y \<Longrightarrow> y \<le> x \<Longrightarrow> x = y" by (cases x; cases y) simp_all
  show "x \<le> y \<or> y \<le> x" by (cases x; cases y) auto
qed

end

text \<open>
  What \<^verbatim>\<open>getBestMove\<close> can return: \<^verbatim>\<open>null\<close>, an index, or \<^verbatim>\<open>undefined\<close> (reading
  an array outside its bounds).
\<close>

datatype move = Null | Undefined | Index nat

section \<open>The evaluator\<close>

text \<open>The eight lines, in the order of the source: rows, columns, diagonals.\<close>

definition LINES :: "(nat \<times> nat \<times> nat) list" where
  "LINES = [(0, 1, 2), (3, 4, 5), (6, 7, 8), (0, 3, 6), (1, 4, 7), (2, 5, 8), (0, 4, 8), (2, 4, 6)]"

text \<open>
  \<^verbatim>\<open>board[i]\<close>. Outside the array JavaScript yields \<^verbatim>\<open>undefined\<close>, which
  \<^verbatim>\<open>getWinner\<close> treats as it treats \<^verbatim>\<open>null\<close>: it is falsy and equal to no mark.
\<close>

definition cell :: "Cell list \<Rightarrow> nat \<Rightarrow> Cell" where
  "cell board i = (if i < length board then board ! i else None)"

text \<open>
  The loop of \<^verbatim>\<open>getWinner\<close> over the remaining lines: the first line whose first
  cell \<open>v\<close> is truthy and equal to the other two cells is returned.
\<close>

fun getWinner_loop :: "Cell list \<Rightarrow> (nat \<times> nat \<times> nat) list \<Rightarrow> outcome" where
  "getWinner_loop board [] = \<lparr>winner = None, line = None\<rparr>"
| "getWinner_loop board ((a, b, c) # rest) =
     (let v = cell board a in
      if v \<noteq> None \<and> v = cell board b \<and> v = cell board c
      then \<lparr>winner = v, line = Some [a, b, c]\<rparr>
      else getWinner_loop board rest)"

definition getWinner :: "Cell list \<Rightarrow> outcome" where
  "getWinner board = getWinner_loop board LINES"

definition isDraw :: "Cell list \<Rightarrow> bool" where
  "isDraw board = (list_all (\<lambda>c. c \<noteq> None) board \<and> winner (getWinner board) = None)"

section \<open>The move selector\<close>

definition emptyCells :: "Cell list \<Rightarrow> nat list" where
  "emptyCells board = filter (\<lambda>i. board ! i = None) [0 ..< length board]"

text \<open>Filling an empty cell leaves strictly fewer empty cells.\<close>

lemma emptyCells_update_less:
  assumes "idx \<in> set (emptyCells board)"
  shows "length (emptyCells (board[idx := Some m])) < length (emptyCells board)"
proof -
  let ?n = "length board"
  from assms have idx: "idx < ?n" and emp: "board ! idx = None"
    by (auto simp: emptyCells_def)
  have sub: "set (emptyCells (board[idx := Some m])) \<subseteq> set (emptyCells board) - {idx}"
    using idx by (auto simp: emptyCells_def nth_list_update split: if_splits)
  have d1: "distinct (emptyCells (board[idx := Some m]))" and d2: "distinct (emptyCells board)"
    by (simp_all add: emptyCells_def)
  have "card (set (emptyCells (board[idx := Some m]))) \<le> card (set (emptyCells board) - {idx})"
    using sub by (intro card_mono) auto
  also have "\<dots> < card (set (emptyCells board))"
    using assms by (intro card_Diff1_less) auto
  finally show ?thesis
    using d1 d2 by (simp add: distinct_card)
qed

text \<open>
  \<^verbatim>\<open>minimax\<close>. Each \<^verbatim>\<open>for\<close> loop over \<open>empties\<close> is a \<open>fold\<close> whose accumulator is
  \<open>best\<close>; \<open>board[idx := Some m]\<close> is the copy \<^verbatim>\<open>next\<close> with \<^verbatim>\<open>next[idx] = m\<close>. The
  recursion is on boards with fewer empty cells.
\<close>

function minimax :: "Cell list \<Rightarrow> bool \<Rightarrow> Mark \<Rightarrow> Mark \<Rightarrow> int \<Rightarrow> number" where
  "minimax board isAiTurn ai human depth =
     (let w = winner (getWinner board) in
      if w = Some ai then Val (10 - depth)
      else if w = Some human then Val (depth - 10)
      else if list_all (\<lambda>c. c \<noteq> None) board then Val 0
      else
        let empties = emptyCells board in
        if isAiTurn
        then fold (\<lambda>idx best. max best (minimax (board[idx := Some ai]) False ai human (depth + 1)))
               empties NegInfinity
        else fold (\<lambda>idx best. min best (minimax (board[idx := Some human]) True ai human (depth + 1)))
               empties PosInfinity)"
  by pat_completeness auto
termination
  by (relation "measure (\<lambda>(board, isAiTurn, ai, human, depth). length (emptyCells board))")
     (auto simp: emptyCells_update_less)

declare minimax.simps [simp del]

text \<open>
  One iteration of the loop of \<^verbatim>\<open>getBestMove\<close>, on the state
  \<open>(bestScore, bestMoves)\<close>.
\<close>

definition getBestMove_step ::
  "Cell list \<Rightarrow> Mark \<Rightarrow> Mark \<Rightarrow> nat \<Rightarrow> number \<times> nat list \<Rightarrow> number \<times> nat list" where
  "getBestMove_step board ai human idx st =
     (case st of (bestScore, bestMoves) \<Rightarrow>
        let score = minimax (board[idx := Some ai]) False ai human 0 in
        if score > bestScore then (score, [idx])
        else if score = bestScore then (bestScore, bestMoves @ [idx])
        else (bestScore, bestMoves))"

text \<open>\<^verbatim>\<open>bestMoves[k]\<close> for an integer \<open>k\<close>.\<close>

definition js_index :: "nat list \<Rightarrow> int \<Rightarrow> move" where
  "js_index xs k = (if 0 \<le> k \<and> k < int (length xs) then Index (xs ! nat k) else Undefined)"

text \<open>
  \<^verbatim>\<open>getBestMove\<close>. Its one effect, the draw \<^verbatim>\<open>Math.random()\<close>, is the parameter
  \<open>random\<close>: a real number, which the source takes from \<open>[0, 1)\<close>. The rounding of the
  product \<^verbatim>\<open>Math.random() * bestMoves.length\<close> is not modelled.
\<close>

definition getBestMove :: "real \<Rightarrow> Cell list \<Rightarrow> Mark \<Rightarrow> Mark \<Rightarrow> move" where
  "getBestMove random board ai human =
     (let empties = emptyCells board in
      if length empties = 0 then Null
      else
        case fold (getBestMove_step board ai human) empties (NegInfinity, []) of
          (bestScore, bestMoves) \<Rightarrow>
            js_index bestMoves \<lfloor>random * real (length bestMoves)\<rfloor>)"

section \<open>Notions used to state the properties\<close>

text \<open>Mark \<open>m\<close> holds all three cells of line \<open>l\<close>.\<close>

definition lineOf :: "Mark \<Rightarrow> Cell list \<Rightarrow> nat \<times> nat \<times> nat \<Rightarrow> bool" where
  "lineOf m board l =
     (case l of (a, b, c) \<Rightarrow>
        cell board a = Some m \<and> cell board b = Some m \<and> cell board c = Some m)"

text \<open>Line \<open>l\<close> is completed: one of the two marks holds it.\<close>

definition completed :: "Cell list \<Rightarrow> nat \<times> nat \<times> nat \<Rightarrow> bool" where
  "completed board l = (lineOf MarkX board l \<or> lineOf MarkO board l)"

text \<open>The board contains a completed line of mark \<open>m\<close>.\<close>

definition hasLine :: "Mark \<Rightarrow> Cell list \<Rightarrow> bool" where
  "hasLine m board = list_ex (lineOf m board) LINES"

text \<open>
  The human has an immediately winning move: an empty cell at which the human's mark
  makes \<^verbatim>\<open>getWinner\<close> report the human.
\<close>

definition humanCanWin :: "Cell list \<Rightarrow> Mark \<Rightarrow> bool" where
  "humanCanWin board human =
     list_ex (\<lambda>j. winner (getWinner (board[j := Some human])) = Some human) (emptyCells board)"

text \<open>
  The AI move \<open>m\<close> blocks: \<open>m\<close> is an empty cell, and once the AI has played it the human
  has not won and has no immediately winning move.
\<close>

definition blocks :: "Cell list \<Rightarrow> Mark \<Rightarrow> Mark \<Rightarrow> nat \<Rightarrow> bool" where
  "blocks board ai human m =
     (m \<in> set (emptyCells board) \<and>
      winner (getWinner (board[m := Some ai])) \<noteq> Some human \<and>
      \<not> humanCanWin (board[m := Some ai]) human)"

text \<open>
  The AI move \<open>m\<close> completes a line: once the AI has played \<open>m\<close>, the AI's mark holds
  all three cells of a line through \<open>m\<close>.
\<close>

definition completesLine :: "Cell list \<Rightarrow> Mark \<Rightarrow> nat \<Rightarrow> bool" where
  "completesLine board ai m =
     list_ex (\<lambda>l. case l of (a, b, c) \<Rightarrow>
        (m = a \<or> m = b \<or> m = c) \<and> lineOf ai (board[m := Some ai]) l) LINES"

section \<open>Properties of the evaluator\<close>


lemma getWinner_loop_step:
  "getWinner_loop board (l # rest) =
     (if completed board l
      then (case l of (a, b, c) \<Rightarrow> \<lparr>winner = cell board a, line = Some [a, b, c]\<rparr>)
      else getWinner_loop board rest)"
proof -
  obtain a b c where l: "l = (a, b, c)" by (cases l) auto
  show ?thesis
  proof (cases "cell board a")
    case None
    then show ?thesis by (simp add: l completed_def lineOf_def)
  next
    case (Some m)
    then show ?thesis
      by (cases m) (auto simp: l completed_def lineOf_def Let_def)
  qed
qed

lemma getWinner_loop_none:
  "\<not> list_ex (completed board) ls \<Longrightarrow> getWinner_loop board ls = \<lparr>winner = None, line = None\<rparr>"
proof (induction ls)
  case Nil
  then show ?case by simp
next
  case (Cons l ls)
  then show ?case by (simp only: getWinner_loop_step) simp
qed

lemma getWinner_loop_first:
  assumes "list_all (\<lambda>l. \<not> completed board l) pre" and "completed board (a, b, c)"
  shows "getWinner_loop board (pre @ (a, b, c) # post) = \<lparr>winner = cell board a, line = Some [a, b, c]\<rparr>"
  using assms
proof (induction pre)
  case Nil
  then show ?case by (simp only: getWinner_loop_step append_Nil) simp
next
  case (Cons l pre)
  then show ?case by (simp only: getWinner_loop_step append_Cons) simp
qed

lemma completed_cell:
  "completed board (a, b, c) \<Longrightarrow> lineOf m board (a, b, c) \<longleftrightarrow> cell board a = Some m"
  by (cases m) (auto simp: completed_def lineOf_def)

lemma getWinner_cases:
  obtains (none) "\<not> list_ex (completed board) LINES" "getWinner board = \<lparr>winner = None, line = None\<rparr>"
  | (some) pre a b c post where "LINES = pre @ (a, b, c) # post" "(a, b, c) \<in> set LINES"
      "list_all (\<lambda>l. \<not> completed board l) pre" "completed board (a, b, c)"
      "getWinner board = \<lparr>winner = cell board a, line = Some [a, b, c]\<rparr>"
proof (cases "list_ex (completed board) LINES")
  case False
  then show ?thesis
    using none getWinner_loop_none by (simp add: getWinner_def)
next
  case True
  then have "\<exists>l \<in> set LINES. completed board l" by (simp add: list_ex_iff)
  then obtain pre l post where sp: "LINES = pre @ l # post" "completed board l"
      "\<forall>y \<in> set pre. \<not> completed board y"
    using split_list_first_prop [of LINES "completed board"] by blast
  obtain a b c where l: "l = (a, b, c)" by (cases l) auto
  have pre: "list_all (\<lambda>l. \<not> completed board l) pre"
    using sp(3) by (simp add: list_all_iff)
  have mem: "(a, b, c) \<in> set LINES"
    by (subst sp(1)) (simp add: l)
  have "getWinner board = getWinner_loop board (pre @ (a, b, c) # post)"
    unfolding getWinner_def by (subst sp(1)) (simp add: l)
  then have res: "getWinner board = \<lparr>winner = cell board a, line = Some [a, b, c]\<rparr>"
    using getWinner_loop_first [OF pre sp(2)[unfolded l], of post] by simp
  show ?thesis
    using some [OF sp(1)[unfolded l] mem pre sp(2)[unfolded l] res] .
qed

lemma winner_Some_iff:
  "winner (getWinner board) = Some m \<longleftrightarrow>
     (\<exists>pre a b c post. LINES = pre @ (a, b, c) # post \<and>
        list_all (\<lambda>l. \<not> completed board l) pre \<and> lineOf m board (a, b, c))"
  (is "?L \<longleftrightarrow> ?R")
proof
  assume ?L
  then show ?R
  proof (cases board rule: getWinner_cases)
    case none
    with \<open>?L\<close> show ?thesis by simp
  next
    case (some pre a b c post)
    with \<open>?L\<close> have "cell board a = Some m" by simp
    then have "lineOf m board (a, b, c)"
      using some(4) completed_cell by blast
    with some(1,3) show ?thesis by blast
  qed
next
  assume ?R
  then obtain pre a b c post where *: "LINES = pre @ (a, b, c) # post"
      "list_all (\<lambda>l. \<not> completed board l) pre" "lineOf m board (a, b, c)"
    by blast
  have c: "completed board (a, b, c)"
    using *(3) by (cases m) (auto simp: completed_def)
  have "cell board a = Some m" using *(3) by (simp add: lineOf_def)
  moreover have "getWinner board = getWinner_loop board (pre @ (a, b, c) # post)"
    unfolding getWinner_def by (subst *(1)) simp
  ultimately show ?L
    using getWinner_loop_first [OF *(2) c, of post] by simp
qed

lemma winner_None_iff:
  "winner (getWinner board) = None \<longleftrightarrow> \<not> hasLine MarkX board \<and> \<not> hasLine MarkO board"
proof (cases board rule: getWinner_cases)
  case none
  then show ?thesis
    by (auto simp: hasLine_def list_ex_iff completed_def)
next
  case (some pre a b c post)
  have "cell board a \<noteq> None"
    using some(4) by (auto simp: completed_def lineOf_def)
  then show ?thesis
    using some(2,4,5) by (auto simp: hasLine_def list_ex_iff completed_def)
qed

lemma winner_hasLine:
  assumes "winner (getWinner board) = Some m"
  shows "hasLine m board"
proof (cases board rule: getWinner_cases)
  case none
  with assms show ?thesis by simp
next
  case (some pre a b c post)
  with assms have "cell board a = Some m" by simp
  then have "lineOf m board (a, b, c)"
    using some(4) completed_cell by blast
  with some(2) show ?thesis
    by (auto simp: hasLine_def list_ex_iff)
qed

lemma winner_only_line:
  assumes "hasLine m board" and "\<not> hasLine m' board" and "m' \<noteq> m"
  shows "winner (getWinner board) = Some m"
proof (cases "winner (getWinner board)")
  case None
  with assms(1) show ?thesis
    using winner_None_iff [of board] by (cases m) auto
next
  case (Some w)
  then have "hasLine w board" by (rule winner_hasLine)
  with assms(2,3) have "w = m" by (cases w; cases m; cases m') auto
  with Some show ?thesis by simp
qed

lemma first_line_winner:
  assumes "i < length LINES" and "list_all (\<lambda>l. \<not> completed board l) (take i LINES)"
    and "lineOf m board (LINES ! i)"
  shows "winner (getWinner board) = Some m"
proof -
  obtain a b c where l: "LINES ! i = (a, b, c)" by (cases "LINES ! i") auto
  have "LINES = take i LINES @ (a, b, c) # drop (Suc i) LINES"
    using id_take_nth_drop [OF assms(1)] l by simp
  with assms(2,3) l show ?thesis
    unfolding winner_Some_iff by (metis (no_types, lifting))
qed

lemma cell_update_other:
  "i \<noteq> m \<Longrightarrow> cell (board[m := v]) i = cell board i"
  by (simp add: cell_def)

lemma winner_completesLine:
  assumes "\<not> hasLine ai board" and "winner (getWinner (board[m := Some ai])) = Some ai"
  shows "completesLine board ai m"
proof -
  from assms(2) have "hasLine ai (board[m := Some ai])" by (rule winner_hasLine)
  then obtain l where l: "l \<in> set LINES" "lineOf ai (board[m := Some ai]) l"
    by (auto simp: hasLine_def list_ex_iff)
  obtain a b c where abc: "l = (a, b, c)" by (cases l) auto
  have "m = a \<or> m = b \<or> m = c"
  proof (rule ccontr)
    assume "\<not> (m = a \<or> m = b \<or> m = c)"
    then have "lineOf ai board l"
      using l(2) by (simp add: abc lineOf_def cell_update_other)
    with l(1) assms(1) show False by (auto simp: hasLine_def list_ex_iff)
  qed
  with l abc show ?thesis
    by (auto simp: completesLine_def list_ex_iff)
qed

text \<open>
  C1. On every board that contains a completed line of one mark \<open>m\<close> and no completed
  line of the other mark, \<open>getWinner\<close> reports \<open>m\<close> as the winner, and the reported
  line is an index triple of \<open>LINES\<close> whose three cells all hold \<open>m\<close>.
\<close>

theorem getWinner_single_mark:
  assumes "hasLine m board" and "\<not> hasLine m' board" and "m' \<noteq> m"
  shows "winner (getWinner board) = Some m \<and>
         (\<exists>a b c. (a, b, c) \<in> set LINES \<and> line (getWinner board) = Some [a, b, c] \<and>
            cell board a = Some m \<and> cell board b = Some m \<and> cell board c = Some m)"
proof -
  have w: "winner (getWinner board) = Some m"
    using assms by (rule winner_only_line)
  show ?thesis
  proof (cases board rule: getWinner_cases)
    case none
    with w show ?thesis by simp
  next
    case (some pre a b c post)
    with w have "cell board a = Some m" by simp
    then have "lineOf m board (a, b, c)"
      using some(4) completed_cell by blast
    then show ?thesis
      using w some(2,5) by (auto simp: lineOf_def)
  qed
qed

theorem getWinner_single_mark_witness:
  "hasLine MarkX [Some MarkX, Some MarkO, None, Some MarkO, Some MarkX, None, None, None, Some MarkX] \<and>
   \<not> hasLine MarkO [Some MarkX, Some MarkO, None, Some MarkO, Some MarkX, None, None, None, Some MarkX] \<and>
   winner (getWinner [Some MarkX, Some MarkO, None, Some MarkO, Some MarkX, None, None, None, Some MarkX])
     = Some MarkX \<and>
   line (getWinner [Some MarkX, Some MarkO, None, Some MarkO, Some MarkX, None, None, None, Some MarkX])
     = Some [0, 4, 8]"
proof -
  let ?b = "[Some MarkX, Some MarkO, None, Some MarkO, Some MarkX, None, None, None, Some MarkX]"
  have h1: "hasLine MarkX ?b" by (simp add: hasLine_def lineOf_def LINES_def cell_def)
  have h2: "\<not> hasLine MarkO ?b" by (simp add: hasLine_def lineOf_def LINES_def cell_def)
  have h3: "MarkO \<noteq> MarkX" by simp
  have l: "line (getWinner ?b) = Some [0, 4, 8]"
    by (simp add: getWinner_def LINES_def cell_def)
  from getWinner_single_mark [OF h1 h2 h3] h1 h2 l show ?thesis by simp
qed

text \<open>
  C2. \<open>isDraw\<close> returns true exactly when every cell is occupied and neither mark has a
  completed line.
\<close>

theorem isDraw_iff:
  "isDraw board \<longleftrightarrow>
     list_all (\<lambda>c. c \<noteq> None) board \<and> \<not> hasLine MarkX board \<and> \<not> hasLine MarkO board"
  by (simp add: isDraw_def winner_None_iff)

theorem isDraw_iff_witness:
  "isDraw [Some MarkX, Some MarkO, Some MarkX, Some MarkO, Some MarkX, Some MarkO, Some MarkO, Some MarkX, Some MarkO] \<and>
   \<not> isDraw [Some MarkX, Some MarkO, Some MarkX, Some MarkO, Some MarkX, Some MarkO, Some MarkO, Some MarkX, None] \<and>
   \<not> isDraw [Some MarkX, Some MarkO, Some MarkX, Some MarkO, Some MarkX, Some MarkO, Some MarkO, Some MarkX, Some MarkX]"
  by (simp add: isDraw_iff hasLine_def lineOf_def LINES_def cell_def)

text \<open>
  C10. \<open>LINES\<close> lists the rows, then the columns, then the two diagonals. When several
  lines are completed, \<open>getWinner\<close> reports the first completed line in that order, with
  the mark it holds; and a reported line always holds three equal marks, so a line of three
  empty cells is never reported.
\<close>

theorem getWinner_first_in_order:
  "LINES = [(0, 1, 2), (3, 4, 5), (6, 7, 8), (0, 3, 6), (1, 4, 7), (2, 5, 8), (0, 4, 8), (2, 4, 6)] \<and>
   (i < length LINES \<and> LINES ! i = (a, b, c) \<and> completed board (a, b, c) \<and>
      list_all (\<lambda>l. \<not> completed board l) (take i LINES)
    \<longrightarrow> getWinner board = \<lparr>winner = cell board a, line = Some [a, b, c]\<rparr> \<and> cell board a \<noteq> None) \<and>
   (line (getWinner board) = Some [a', b', c']
    \<longrightarrow> (\<exists>m. winner (getWinner board) = Some m \<and> cell board a' = Some m \<and>
           cell board b' = Some m \<and> cell board c' = Some m))"
proof (intro conjI impI)
  show "LINES = [(0, 1, 2), (3, 4, 5), (6, 7, 8), (0, 3, 6), (1, 4, 7), (2, 5, 8), (0, 4, 8), (2, 4, 6)]"
    by (simp add: LINES_def)
next
  assume h: "i < length LINES \<and> LINES ! i = (a, b, c) \<and> completed board (a, b, c) \<and>
      list_all (\<lambda>l. \<not> completed board l) (take i LINES)"
  then have "LINES = take i LINES @ (a, b, c) # drop (Suc i) LINES"
    using id_take_nth_drop [of i LINES] by simp
  then have "getWinner board = getWinner_loop board (take i LINES @ (a, b, c) # drop (Suc i) LINES)"
    unfolding getWinner_def by simp
  then show "getWinner board = \<lparr>winner = cell board a, line = Some [a, b, c]\<rparr>"
    using getWinner_loop_first [of board "take i LINES" a b c "drop (Suc i) LINES"] h by simp
  show "cell board a \<noteq> None"
    using h by (auto simp: completed_def lineOf_def)
next
  assume l: "line (getWinner board) = Some [a', b', c']"
  show "\<exists>m. winner (getWinner board) = Some m \<and> cell board a' = Some m \<and>
           cell board b' = Some m \<and> cell board c' = Some m"
  proof (cases board rule: getWinner_cases)
    case none
    with l show ?thesis by simp
  next
    case (some pre a b c post)
    with l have "a' = a" "b' = b" "c' = c" by simp_all
    with some(4,5) show ?thesis
      by (auto simp: completed_def lineOf_def)
  qed
qed

theorem getWinner_first_in_order_witness:
  "completed [Some MarkX, None, Some MarkO, Some MarkX, None, Some MarkO, Some MarkX, None, Some MarkO] (0, 3, 6) \<and>
   completed [Some MarkX, None, Some MarkO, Some MarkX, None, Some MarkO, Some MarkX, None, Some MarkO] (2, 5, 8) \<and>
   list_all (\<lambda>l. \<not> completed [Some MarkX, None, Some MarkO, Some MarkX, None, Some MarkO, Some MarkX, None, Some MarkO] l)
     (take 3 LINES) \<and>
   getWinner [Some MarkX, None, Some MarkO, Some MarkX, None, Some MarkO, Some MarkX, None, Some MarkO]
     = \<lparr>winner = Some MarkX, line = Some [0, 3, 6]\<rparr>"
proof -
  let ?b = "[Some MarkX, None, Some MarkO, Some MarkX, None, Some MarkO, Some MarkX, None, Some MarkO]"
  have h1: "(3::nat) < length LINES" by (simp add: LINES_def)
  have h2: "LINES ! 3 = (0, 3, 6)" by (simp add: LINES_def)
  have h3: "completed ?b (0, 3, 6)" by (simp add: completed_def lineOf_def cell_def)
  have h4: "list_all (\<lambda>l. \<not> completed ?b l) (take 3 LINES)"
    by (simp add: LINES_def completed_def lineOf_def cell_def)
  have h5: "completed ?b (2, 5, 8)" by (simp add: completed_def lineOf_def cell_def)
  have c: "cell ?b 0 = Some MarkX" by (simp add: cell_def)
  from getWinner_first_in_order [of 3 0 3 6 ?b] h1 h2 h3 h4 h5 c show ?thesis by simp
qed

section \<open>Properties of the move selector\<close>

lemma emptyCells_Nil_iff: "emptyCells board = [] \<longleftrightarrow> list_all (\<lambda>c. c \<noteq> None) board"
  by (auto simp: emptyCells_def filter_empty_conv list_all_length)

lemma emptyCells_mem: "i \<in> set (emptyCells board) \<longleftrightarrow> i < length board \<and> board ! i = None"
  by (auto simp: emptyCells_def)

lemma not_less_NegInfinity: "\<not> x < NegInfinity"
  by (simp add: less_number_def)

lemma Val_less_iff: "Val a < Val b \<longleftrightarrow> a < b"
  by (auto simp: less_number_def)

lemma getBestMove_fold_inv:
  assumes "fold (getBestMove_step board ai human) xs (NegInfinity, []) = (S, Ms)"
  shows "(\<forall>x \<in> set xs. minimax (board[x := Some ai]) False ai human 0 \<le> S) \<and>
         (\<forall>m \<in> set Ms. m \<in> set xs \<and> minimax (board[m := Some ai]) False ai human 0 = S) \<and>
         (xs = [] \<longrightarrow> S = NegInfinity) \<and> (xs \<noteq> [] \<longrightarrow> Ms \<noteq> [])"
  using assms
proof (induction xs arbitrary: S Ms rule: rev_induct)
  case Nil
  then show ?case by simp
next
  case (snoc x xs)
  obtain S0 Ms0 where st: "fold (getBestMove_step board ai human) xs (NegInfinity, []) = (S0, Ms0)"
    by (cases "fold (getBestMove_step board ai human) xs (NegInfinity, [])") auto
  note IH = snoc.IH [OF st]
  let ?sc = "minimax (board[x := Some ai]) False ai human 0"
  from snoc.prems st have step: "getBestMove_step board ai human x (S0, Ms0) = (S, Ms)"
    by simp
  consider (gt) "S0 < ?sc" | (eq) "?sc = S0" | (lt) "?sc < S0"
    by (metis linorder_less_linear)
  then show ?case
  proof cases
    case gt
    with step have r: "S = ?sc" "Ms = [x]"
      by (auto simp: getBestMove_step_def)
    have "\<forall>y \<in> set xs. minimax (board[y := Some ai]) False ai human 0 \<le> ?sc"
      using IH gt by (meson less_imp_le order_trans)
    with r show ?thesis by simp
  next
    case eq
    with step have r: "S = S0" "Ms = Ms0 @ [x]"
      by (auto simp: getBestMove_step_def)
    with IH eq show ?thesis by auto
  next
    case lt
    then have "\<not> S0 < ?sc" "?sc \<noteq> S0" by auto
    with step have r: "S = S0" "Ms = Ms0"
      by (auto simp: getBestMove_step_def)
    have "xs \<noteq> []"
      using IH lt not_less_NegInfinity by auto
    with IH lt r show ?thesis by auto
  qed
qed

lemma random_index_bounds:
  assumes "0 \<le> r" and "r < 1" and "0 < n"
  shows "0 \<le> \<lfloor>r * real n\<rfloor> \<and> nat \<lfloor>r * real n\<rfloor> < n"
proof -
  have "0 \<le> r * real n" using assms by simp
  then have a: "0 \<le> \<lfloor>r * real n\<rfloor>" by simp
  have "r * real n < real n" using assms by simp
  then have "\<lfloor>r * real n\<rfloor> < int n" by (simp add: floor_less_iff)
  with a show ?thesis by (simp add: nat_less_iff)
qed

lemma getBestMove_Null: "emptyCells board = [] \<Longrightarrow> getBestMove r board ai human = Null"
  by (simp add: getBestMove_def)

lemma getBestMove_Index:
  assumes "emptyCells board \<noteq> []" and "0 \<le> r" and "r < 1"
  obtains m S Ms where "getBestMove r board ai human = Index m"
    and "fold (getBestMove_step board ai human) (emptyCells board) (NegInfinity, []) = (S, Ms)"
    and "m \<in> set Ms"
proof -
  obtain S Ms where st:
      "fold (getBestMove_step board ai human) (emptyCells board) (NegInfinity, []) = (S, Ms)"
    by (cases "fold (getBestMove_step board ai human) (emptyCells board) (NegInfinity, [])") auto
  from getBestMove_fold_inv [OF st] assms(1) have ne: "0 < length Ms" by simp
  let ?k = "\<lfloor>r * real (length Ms)\<rfloor>"
  from random_index_bounds [OF assms(2,3) ne]
  have k: "0 \<le> ?k" "nat ?k < length Ms" by simp_all
  then have "?k < int (length Ms)" by linarith
  with k have "js_index Ms ?k = Index (Ms ! nat ?k)"
    by (simp add: js_index_def)
  then have "getBestMove r board ai human = Index (Ms ! nat ?k)"
    using assms(1) st by (simp add: getBestMove_def)
  moreover have "Ms ! nat ?k \<in> set Ms" using k by simp
  ultimately show ?thesis using that st by blast
qed

text \<open>
  C3. For every outcome of the random draw (a value in \<open>[0, 1)\<close>), \<open>getBestMove\<close> returns
  null exactly when the board has no empty cell; on a board with an empty cell it returns
  an index.
\<close>

theorem getBestMove_Null_iff:
  assumes "0 \<le> r" and "r < 1"
  shows "(getBestMove r board ai human = Null \<longleftrightarrow> list_all (\<lambda>c. c \<noteq> None) board) \<and>
         (\<not> list_all (\<lambda>c. c \<noteq> None) board \<longrightarrow> (\<exists>i. getBestMove r board ai human = Index i))"
proof (cases "emptyCells board = []")
  case True
  then show ?thesis
    using getBestMove_Null [of board r ai human] by (simp add: emptyCells_Nil_iff)
next
  case False
  then obtain m where "getBestMove r board ai human = Index m"
    using assms by (auto elim: getBestMove_Index)
  with False show ?thesis by (simp add: emptyCells_Nil_iff)
qed

theorem getBestMove_Null_iff_witness:
  "getBestMove (1 / 2) [Some MarkX, Some MarkO, Some MarkX, Some MarkO, Some MarkX, Some MarkO, Some MarkO, Some MarkX, Some MarkO]
     MarkO MarkX = Null \<and>
   (\<exists>i. getBestMove (1 / 2) [Some MarkX, Some MarkO, Some MarkX, Some MarkO, Some MarkX, Some MarkO, Some MarkO, Some MarkX, None]
     MarkO MarkX = Index i)"
proof -
  have h1: "(0::real) \<le> 1 / 2" and h2: "(1::real) / 2 < 1" by simp_all
  show ?thesis
    using getBestMove_Null_iff [OF h1 h2, of "[Some MarkX, Some MarkO, Some MarkX, Some MarkO, Some MarkX, Some MarkO, Some MarkO, Some MarkX, Some MarkO]" MarkO MarkX]
      getBestMove_Null_iff [OF h1 h2, of "[Some MarkX, Some MarkO, Some MarkX, Some MarkO, Some MarkX, Some MarkO, Some MarkO, Some MarkX, None]" MarkO MarkX]
    by simp
qed

text \<open>
  C4. On a 9-cell board with at least one empty cell, for every outcome of the random draw,
  \<open>getBestMove\<close> returns an index between 0 and 8 whose cell is empty on the input board.
\<close>

theorem getBestMove_empty_cell:
  assumes "length board = 9" and "\<not> list_all (\<lambda>c. c \<noteq> None) board" and "0 \<le> r" and "r < 1"
  shows "\<exists>i. getBestMove r board ai human = Index i \<and> i \<le> 8 \<and> board ! i = None"
proof -
  from assms(2) have ne: "emptyCells board \<noteq> []" by (simp add: emptyCells_Nil_iff)
  from ne assms(3,4) obtain m S Ms where m: "getBestMove r board ai human = Index m"
      "fold (getBestMove_step board ai human) (emptyCells board) (NegInfinity, []) = (S, Ms)"
      "m \<in> set Ms"
    by (rule getBestMove_Index)
  from getBestMove_fold_inv [OF m(2)] m(3) have "m \<in> set (emptyCells board)" by blast
  then have "m < 9" "board ! m = None"
    using assms(1) by (simp_all add: emptyCells_mem)
  with m(1) show ?thesis by simp
qed

theorem getBestMove_empty_cell_witness:
  "\<exists>i. getBestMove 0 [Some MarkX, Some MarkO, Some MarkX, Some MarkO, Some MarkX, Some MarkO, Some MarkO, None, None]
     MarkO MarkX = Index i \<and> i \<le> 8 \<and>
     [Some MarkX, Some MarkO, Some MarkX, Some MarkO, Some MarkX, Some MarkO, Some MarkO, None, None] ! i = None"
proof -
  let ?b = "[Some MarkX, Some MarkO, Some MarkX, Some MarkO, Some MarkX, Some MarkO, Some MarkO, None, None]"
  have h1: "length ?b = 9" by simp
  have h2: "\<not> list_all (\<lambda>c. c \<noteq> None) ?b" by simp
  have h3: "(0::real) \<le> 0" and h4: "(0::real) < 1" by simp_all
  from getBestMove_empty_cell [OF h1 h2 h3 h4] show ?thesis .
qed

section \<open>The minimax recursion\<close>

lemma minimax_unfold:
  "minimax board t ai human d =
     (if winner (getWinner board) = Some ai then Val (10 - d)
      else if winner (getWinner board) = Some human then Val (d - 10)
      else if list_all (\<lambda>c. c \<noteq> None) board then Val 0
      else if t
        then fold (\<lambda>idx best. max best (minimax (board[idx := Some ai]) False ai human (d + 1)))
               (emptyCells board) NegInfinity
        else fold (\<lambda>idx best. min best (minimax (board[idx := Some human]) True ai human (d + 1)))
               (emptyCells board) PosInfinity)"
  by (subst minimax.simps) (simp add: Let_def)

lemma minimax_ai_win:
  "winner (getWinner board) = Some ai \<Longrightarrow> minimax board t ai human d = Val (10 - d)"
  by (subst minimax_unfold) simp

lemma minimax_human_win:
  "winner (getWinner board) = Some human \<Longrightarrow> human \<noteq> ai \<Longrightarrow>
   minimax board t ai human d = Val (d - 10)"
  by (subst minimax_unfold) simp

lemma minimax_full:
  "winner (getWinner board) = None \<Longrightarrow> list_all (\<lambda>c. c \<noteq> None) board \<Longrightarrow>
   minimax board t ai human d = Val 0"
  by (subst minimax_unfold) simp

lemma le_NegInfinity_iff: "x \<le> NegInfinity \<longleftrightarrow> x = NegInfinity"
  by (cases x) simp_all

lemma PosInfinity_le_iff: "PosInfinity \<le> x \<longleftrightarrow> x = PosInfinity"
  by (cases x) simp_all

lemma fold_max_ge_acc: "acc \<le> fold (\<lambda>x best. max best (f x)) xs (acc::number)"
proof (induction xs arbitrary: acc)
  case Nil
  then show ?case by simp
next
  case (Cons x xs)
  have "acc \<le> max acc (f x)" by simp
  also have "\<dots> \<le> fold (\<lambda>x best. max best (f x)) xs (max acc (f x))" by (rule Cons.IH)
  finally show ?case by simp
qed

lemma fold_max_ge: "x \<in> set xs \<Longrightarrow> f x \<le> fold (\<lambda>x best. max best (f x)) xs (acc::number)"
proof (induction xs arbitrary: acc)
  case Nil
  then show ?case by simp
next
  case (Cons y ys)
  show ?case
  proof (cases "x = y")
    case True
    have "f y \<le> max acc (f y)" by simp
    also have "\<dots> \<le> fold (\<lambda>x best. max best (f x)) ys (max acc (f y))" by (rule fold_max_ge_acc)
    finally show ?thesis using True by simp
  next
    case False
    with Cons.prems have "x \<in> set ys" by simp
    then show ?thesis using Cons.IH by simp
  qed
qed

lemma fold_max_cases:
  "fold (\<lambda>x best. max best (f x)) xs (acc::number) = acc \<or>
   fold (\<lambda>x best. max best (f x)) xs acc \<in> f ` set xs"
proof (induction xs arbitrary: acc)
  case Nil
  then show ?case by simp
next
  case (Cons y ys)
  from Cons.IH [of "max acc (f y)"] show ?case
    by (auto simp: max_def split: if_splits)
qed

lemma fold_min_le_acc: "fold (\<lambda>x best. min best (f x)) xs (acc::number) \<le> acc"
proof (induction xs arbitrary: acc)
  case Nil
  then show ?case by simp
next
  case (Cons x xs)
  have "fold (\<lambda>x best. min best (f x)) xs (min acc (f x)) \<le> min acc (f x)" by (rule Cons.IH)
  also have "\<dots> \<le> acc" by simp
  finally show ?case by simp
qed

lemma fold_min_le: "x \<in> set xs \<Longrightarrow> fold (\<lambda>x best. min best (f x)) xs (acc::number) \<le> f x"
proof (induction xs arbitrary: acc)
  case Nil
  then show ?case by simp
next
  case (Cons y ys)
  show ?case
  proof (cases "x = y")
    case True
    have "fold (\<lambda>x best. min best (f x)) ys (min acc (f y)) \<le> min acc (f y)"
      by (rule fold_min_le_acc)
    also have "\<dots> \<le> f y" by simp
    finally show ?thesis using True by simp
  next
    case False
    with Cons.prems have "x \<in> set ys" by simp
    then show ?thesis using Cons.IH by simp
  qed
qed

lemma fold_min_cases:
  "fold (\<lambda>x best. min best (f x)) xs (acc::number) = acc \<or>
   fold (\<lambda>x best. min best (f x)) xs acc \<in> f ` set xs"
proof (induction xs arbitrary: acc)
  case Nil
  then show ?case by simp
next
  case (Cons y ys)
  from Cons.IH [of "min acc (f y)"] show ?case
    by (auto simp: min_def split: if_splits)
qed

lemma fold_max_in:
  assumes "xs \<noteq> []" and "\<forall>x \<in> set xs. f x \<noteq> NegInfinity"
  shows "fold (\<lambda>x best. max best (f x)) xs NegInfinity \<in> f ` set xs"
proof -
  from assms(1) obtain x where x: "x \<in> set xs" by (cases xs) auto
  have "fold (\<lambda>x best. max best (f x)) xs NegInfinity \<noteq> NegInfinity"
    using fold_max_ge [OF x, of f NegInfinity] assms(2) x
    by (auto simp: le_NegInfinity_iff)
  then show ?thesis
    using fold_max_cases [of f xs NegInfinity] by auto
qed

lemma fold_min_in:
  assumes "xs \<noteq> []" and "\<forall>x \<in> set xs. f x \<noteq> PosInfinity"
  shows "fold (\<lambda>x best. min best (f x)) xs PosInfinity \<in> f ` set xs"
proof -
  from assms(1) obtain x where x: "x \<in> set xs" by (cases xs) auto
  have "fold (\<lambda>x best. min best (f x)) xs PosInfinity \<noteq> PosInfinity"
    using fold_min_le [OF x, of f PosInfinity] assms(2) x
    by (auto simp: PosInfinity_le_iff)
  then show ?thesis
    using fold_min_cases [of f xs PosInfinity] by auto
qed

lemma minimax_recursive:
  assumes "winner (getWinner board) \<noteq> Some ai" and "winner (getWinner board) \<noteq> Some human"
    and "\<not> list_all (\<lambda>c. c \<noteq> None) board"
    and "\<forall>x \<in> set (emptyCells board). \<forall>m t'. \<exists>v. minimax (board[x := Some m]) t' ai human (d + 1) = Val v"
  shows "\<exists>x \<in> set (emptyCells board).
           minimax board t ai human d =
             minimax (board[x := Some (if t then ai else human)]) (\<not> t) ai human (d + 1)"
proof -
  have ne: "emptyCells board \<noteq> []"
    using assms(3) by (simp add: emptyCells_Nil_iff)
  show ?thesis
  proof (cases t)
    case True
    let ?f = "\<lambda>idx. minimax (board[idx := Some ai]) False ai human (d + 1)"
    have "\<forall>x \<in> set (emptyCells board). ?f x \<noteq> NegInfinity"
      using assms(4) by (metis number.distinct(1))
    from fold_max_in [OF ne this]
    have "fold (\<lambda>x best. max best (?f x)) (emptyCells board) NegInfinity \<in> ?f ` set (emptyCells board)" .
    moreover have "minimax board t ai human d =
        fold (\<lambda>x best. max best (?f x)) (emptyCells board) NegInfinity"
      using assms(1-3) True by (subst minimax_unfold) simp
    ultimately show ?thesis using True by auto
  next
    case False
    let ?f = "\<lambda>idx. minimax (board[idx := Some human]) True ai human (d + 1)"
    have "\<forall>x \<in> set (emptyCells board). ?f x \<noteq> PosInfinity"
      using assms(4) by (metis number.distinct(5))
    from fold_min_in [OF ne this]
    have "fold (\<lambda>x best. min best (?f x)) (emptyCells board) PosInfinity \<in> ?f ` set (emptyCells board)" .
    moreover have "minimax board t ai human d =
        fold (\<lambda>x best. min best (?f x)) (emptyCells board) PosInfinity"
      using assms(1-3) False by (subst minimax_unfold) simp
    ultimately show ?thesis using False by auto
  qed
qed

lemma minimax_bounds:
  "d + int (length (emptyCells board)) \<le> 10 \<Longrightarrow>
   \<exists>v. minimax board t ai human d = Val v \<and> d - 10 \<le> v \<and> v \<le> 10 - d"
proof (induction "length (emptyCells board)" arbitrary: board t d rule: less_induct)
  case less
  have dle: "d \<le> 10" using less.prems by linarith
  let ?w = "winner (getWinner board)"
  consider (ai) "?w = Some ai" | (hu) "?w \<noteq> Some ai" "?w = Some human"
    | (full) "?w \<noteq> Some ai" "?w \<noteq> Some human" "list_all (\<lambda>c. c \<noteq> None) board"
    | (rec) "?w \<noteq> Some ai" "?w \<noteq> Some human" "\<not> list_all (\<lambda>c. c \<noteq> None) board"
    by blast
  then show ?case
  proof cases
    case ai
    then show ?thesis using dle by (subst minimax_unfold) simp
  next
    case hu
    then show ?thesis using dle by (subst minimax_unfold) simp
  next
    case full
    then show ?thesis using dle by (subst minimax_unfold) simp
  next
    case rec
    have child: "\<exists>v. minimax (board[x := Some m]) t' ai human (d + 1) = Val v \<and>
        (d + 1) - 10 \<le> v \<and> v \<le> 10 - (d + 1)"
      if x: "x \<in> set (emptyCells board)" for x m t'
    proof -
      have l: "length (emptyCells (board[x := Some m])) < length (emptyCells board)"
        using x by (rule emptyCells_update_less)
      then have "d + 1 + int (length (emptyCells (board[x := Some m]))) \<le> 10"
        using less.prems by linarith
      from less.hyps [OF l this] show ?thesis .
    qed
    then have "\<forall>x \<in> set (emptyCells board). \<forall>m t'. \<exists>v.
        minimax (board[x := Some m]) t' ai human (d + 1) = Val v"
      by blast
    from minimax_recursive [OF rec this, of t] obtain x where x: "x \<in> set (emptyCells board)"
      "minimax board t ai human d =
         minimax (board[x := Some (if t then ai else human)]) (\<not> t) ai human (d + 1)"
      by blast
    from child [OF x(1), of "if t then ai else human" "\<not> t"] x(2) show ?thesis
      by force
  qed
qed

lemma minimax_Val: "\<exists>v. minimax board t ai human d = Val v"
proof (induction "length (emptyCells board)" arbitrary: board t d rule: less_induct)
  case less
  let ?w = "winner (getWinner board)"
  consider (ai) "?w = Some ai" | (hu) "?w \<noteq> Some ai" "?w = Some human"
    | (full) "?w \<noteq> Some ai" "?w \<noteq> Some human" "list_all (\<lambda>c. c \<noteq> None) board"
    | (rec) "?w \<noteq> Some ai" "?w \<noteq> Some human" "\<not> list_all (\<lambda>c. c \<noteq> None) board"
    by blast
  then show ?case
  proof cases
    case ai
    then show ?thesis by (subst minimax_unfold) simp
  next
    case hu
    then show ?thesis by (subst minimax_unfold) simp
  next
    case full
    then show ?thesis by (subst minimax_unfold) simp
  next
    case rec
    have "\<forall>x \<in> set (emptyCells board). \<forall>m t'. \<exists>v.
        minimax (board[x := Some m]) t' ai human (d + 1) = Val v"
      using less.hyps emptyCells_update_less by blast
    from minimax_recursive [OF rec this, of t] obtain x where x: "x \<in> set (emptyCells board)"
      "minimax board t ai human d =
         minimax (board[x := Some (if t then ai else human)]) (\<not> t) ai human (d + 1)"
      by blast
    with less.hyps [OF emptyCells_update_less [OF x(1)]] show ?thesis by simp
  qed
qed

lemma minimax_rel_less:
  assumes "minimax_rel c' c"
  shows "length (emptyCells (fst c')) < length (emptyCells (fst c))"
  using assms by (cases rule: minimax_rel.cases) (simp_all add: emptyCells_update_less)

lemma minimax_rel_not_terminal:
  assumes "minimax_rel c' (board, t, ai, human, d)"
  shows "winner (getWinner board) \<noteq> Some ai \<and> winner (getWinner board) \<noteq> Some human \<and>
         emptyCells board \<noteq> []"
  using assms by (cases rule: minimax_rel.cases) (simp_all add: emptyCells_Nil_iff)

lemma winner_two_marks:
  "ai \<noteq> human \<Longrightarrow> winner (getWinner board) \<noteq> Some ai \<Longrightarrow>
   winner (getWinner board) \<noteq> Some human \<Longrightarrow> winner (getWinner board) = None"
  by (cases "winner (getWinner board)"; cases ai; cases human) (auto intro: Mark.exhaust)

text \<open>
  C9. The recursion of \<open>minimax\<close> terminates: every recursive call (the relation
  \<open>minimax_rel\<close> of the definition) is on a board with strictly fewer empty cells, so the
  call relation is well-founded and \<open>minimax\<close> returns a finite score; with two distinct
  marks no recursive call is made from a board that has a winner or no empty cell; and
  \<open>getBestMove\<close> returns null or an index for every outcome of the random draw.
\<close>

theorem minimax_terminates:
  "(minimax_rel c' c \<longrightarrow> length (emptyCells (fst c')) < length (emptyCells (fst c))) \<and>
   wfp minimax_rel \<and>
   (ai \<noteq> human \<and> (winner (getWinner board) \<noteq> None \<or> emptyCells board = [])
      \<longrightarrow> \<not> minimax_rel c' (board, t, ai, human, d)) \<and>
   (\<exists>v. minimax board t ai human d = Val v) \<and>
   (0 \<le> r \<and> r < 1
      \<longrightarrow> getBestMove r board ai human = Null \<or> (\<exists>i. getBestMove r board ai human = Index i))"
proof (intro conjI impI)
  assume "minimax_rel c' c"
  then show "length (emptyCells (fst c')) < length (emptyCells (fst c))"
    by (rule minimax_rel_less)
next
  show "wfp minimax_rel"
    by (rule wfp_if_convertible_to_nat [where f = "\<lambda>c. length (emptyCells (fst c))"])
       (rule minimax_rel_less)
next
  assume h: "ai \<noteq> human \<and> (winner (getWinner board) \<noteq> None \<or> emptyCells board = [])"
  show "\<not> minimax_rel c' (board, t, ai, human, d)"
  proof
    assume "minimax_rel c' (board, t, ai, human, d)"
    from minimax_rel_not_terminal [OF this] h show False
      using winner_two_marks [of ai human board] by auto
  qed
next
  show "\<exists>v. minimax board t ai human d = Val v" by (rule minimax_Val)
next
  assume r: "0 \<le> r \<and> r < 1"
  show "getBestMove r board ai human = Null \<or> (\<exists>i. getBestMove r board ai human = Index i)"
  proof (cases "emptyCells board = []")
    case True
    then show ?thesis by (simp add: getBestMove_Null)
  next
    case False
    then obtain m where "getBestMove r board ai human = Index m"
      using r by (auto elim: getBestMove_Index)
    then show ?thesis by simp
  qed
qed

theorem minimax_terminates_witness:
  "minimax_rel ([None, None, None, None, None, None, None, None, None][4 := Some MarkO], False, MarkO, MarkX, 0 + 1)
     ([None, None, None, None, None, None, None, None, None], True, MarkO, MarkX, 0) \<and>
   length (emptyCells ([None, None, None, None, None, None, None, None, None][4 := Some MarkO]))
     < length (emptyCells [None, None, None, None, None, None, None, None, None]) \<and>
   \<not> minimax_rel ([None, None, None, None, None, None, None, None, None][4 := Some MarkO], False, MarkO, MarkX, 0 + 1)
     ([Some MarkX, Some MarkX, Some MarkX, None, Some MarkO, Some MarkO, None, None, None], True, MarkO, MarkX, 0)"
proof -
  let ?e = "[None, None, None, None, None, None, None, None, None] :: Cell list"
  let ?w = "[Some MarkX, Some MarkX, Some MarkX, None, Some MarkO, Some MarkO, None, None, None]"
  have w: "winner (getWinner ?e) = None"
    by (simp add: getWinner_def LINES_def cell_def)
  have m: "(4::nat) \<in> set (emptyCells ?e)"
    by (simp add: emptyCells_mem)
  have rel: "minimax_rel (?e[4 := Some MarkO], False, MarkO, MarkX, 0 + 1) (?e, True, MarkO, MarkX, 0)"
    by (rule minimax_rel.intros(1) [OF refl _ _ _ refl _ m]) (simp_all add: w)
  have t: "MarkO \<noteq> MarkX \<and> (winner (getWinner ?w) \<noteq> None \<or> emptyCells ?w = [])"
    by (simp add: getWinner_def LINES_def cell_def)
  from minimax_terminates [of "(?e[4 := Some MarkO], False, MarkO, MarkX, 0 + 1)"
      "(?e, True, MarkO, MarkX, 0)" MarkO MarkX ?w True 0 0] rel t
  have "length (emptyCells (fst (?e[4 := Some MarkO], False, MarkO, MarkX, (0::int) + 1)))
          < length (emptyCells (fst (?e, True, MarkO, MarkX, 0::int)))"
    and "\<not> minimax_rel (?e[4 := Some MarkO], False, MarkO, MarkX, 0 + 1) (?w, True, MarkO, MarkX, 0)"
    by blast+
  with rel show ?thesis by (simp only: fst_conv) blast
qed

text \<open>
  C5 (as amended). At depth \<open>d\<close>, \<open>minimax\<close> scores a board on which the AI mark has a
  completed line and the human mark has none with \<open>10 - d\<close>, a board on which the human
  mark has a completed line and the AI mark has none with \<open>d - 10\<close>, and a fully occupied
  board without a completed line with \<open>0\<close>; so among such AI wins a smaller depth scores
  strictly higher, and among such human wins a smaller depth scores strictly lower. On
  every board, also one on which both marks have a completed line, the score follows the
  winner that \<open>getWinner\<close> reports, which is the holder of the first completed line in the
  order of \<open>LINES\<close>: \<open>10 - d\<close> when that is the AI mark, and \<open>d - 10\<close> when that is the
  human mark and the two marks differ.
\<close>

theorem minimax_terminal_scores:
  "(hasLine ai board \<and> \<not> hasLine human board \<longrightarrow> minimax board t ai human d = Val (10 - d)) \<and>
   (hasLine human board \<and> \<not> hasLine ai board \<longrightarrow> minimax board t ai human d = Val (d - 10)) \<and>
   (list_all (\<lambda>c. c \<noteq> None) board \<and> \<not> hasLine MarkX board \<and> \<not> hasLine MarkO board
      \<longrightarrow> minimax board t ai human d = Val 0) \<and>
   (hasLine ai board \<and> \<not> hasLine human board \<and> hasLine ai board' \<and> \<not> hasLine human board' \<and> d < d'
      \<longrightarrow> minimax board' t' ai human d' < minimax board t ai human d) \<and>
   (hasLine human board \<and> \<not> hasLine ai board \<and> hasLine human board' \<and> \<not> hasLine ai board' \<and> d < d'
      \<longrightarrow> minimax board t ai human d < minimax board' t' ai human d') \<and>
   (winner (getWinner board) = Some ai \<longrightarrow> minimax board t ai human d = Val (10 - d)) \<and>
   (winner (getWinner board) = Some human \<and> human \<noteq> ai
      \<longrightarrow> minimax board t ai human d = Val (d - 10)) \<and>
   (i < length LINES \<and> list_all (\<lambda>l. \<not> completed board l) (take i LINES) \<and>
      lineOf ai board (LINES ! i)
      \<longrightarrow> minimax board t ai human d = Val (10 - d)) \<and>
   (i < length LINES \<and> list_all (\<lambda>l. \<not> completed board l) (take i LINES) \<and>
      lineOf human board (LINES ! i) \<and> human \<noteq> ai
      \<longrightarrow> minimax board t ai human d = Val (d - 10))"
proof -
  have aiw: "minimax b s ai human e = Val (10 - e)"
    if "hasLine ai b \<and> \<not> hasLine human b" for b s e
  proof -
    from that have "human \<noteq> ai" by auto
    with that have "winner (getWinner b) = Some ai"
      using winner_only_line [of ai b human] by simp
    then show ?thesis by (rule minimax_ai_win)
  qed
  have huw: "minimax b s ai human e = Val (e - 10)"
    if "hasLine human b \<and> \<not> hasLine ai b" for b s e
  proof -
    from that have ne: "ai \<noteq> human" by auto
    with that have "winner (getWinner b) = Some human"
      using winner_only_line [of human b ai] by simp
    then show ?thesis using ne by (simp add: minimax_human_win)
  qed
  have c1: "hasLine ai board \<and> \<not> hasLine human board \<longrightarrow> minimax board t ai human d = Val (10 - d)"
    using aiw by simp
  have c2: "hasLine human board \<and> \<not> hasLine ai board \<longrightarrow> minimax board t ai human d = Val (d - 10)"
    using huw by simp
  have c3: "list_all (\<lambda>c. c \<noteq> None) board \<and> \<not> hasLine MarkX board \<and> \<not> hasLine MarkO board
      \<longrightarrow> minimax board t ai human d = Val 0"
    by (simp add: minimax_full winner_None_iff)
  have c4: "hasLine ai board \<and> \<not> hasLine human board \<and> hasLine ai board' \<and> \<not> hasLine human board' \<and> d < d'
      \<longrightarrow> minimax board' t' ai human d' < minimax board t ai human d"
    using aiw by (simp add: Val_less_iff)
  have c5: "hasLine human board \<and> \<not> hasLine ai board \<and> hasLine human board' \<and> \<not> hasLine ai board' \<and> d < d'
      \<longrightarrow> minimax board t ai human d < minimax board' t' ai human d'"
    using huw by (simp add: Val_less_iff)
  have c6: "winner (getWinner board) = Some ai \<longrightarrow> minimax board t ai human d = Val (10 - d)"
    by (simp add: minimax_ai_win)
  have c7: "winner (getWinner board) = Some human \<and> human \<noteq> ai
      \<longrightarrow> minimax board t ai human d = Val (d - 10)"
    by (simp add: minimax_human_win)
  have c8: "i < length LINES \<and> list_all (\<lambda>l. \<not> completed board l) (take i LINES) \<and>
      lineOf ai board (LINES ! i)
      \<longrightarrow> minimax board t ai human d = Val (10 - d)"
  proof
    assume "i < length LINES \<and> list_all (\<lambda>l. \<not> completed board l) (take i LINES) \<and>
      lineOf ai board (LINES ! i)"
    then have "winner (getWinner board) = Some ai"
      using first_line_winner [of i board ai] by simp
    then show "minimax board t ai human d = Val (10 - d)" by (rule minimax_ai_win)
  qed
  have c9: "i < length LINES \<and> list_all (\<lambda>l. \<not> completed board l) (take i LINES) \<and>
      lineOf human board (LINES ! i) \<and> human \<noteq> ai
      \<longrightarrow> minimax board t ai human d = Val (d - 10)"
  proof
    assume h: "i < length LINES \<and> list_all (\<lambda>l. \<not> completed board l) (take i LINES) \<and>
      lineOf human board (LINES ! i) \<and> human \<noteq> ai"
    then have "winner (getWinner board) = Some human"
      using first_line_winner [of i board human] by simp
    with h show "minimax board t ai human d = Val (d - 10)" by (simp add: minimax_human_win)
  qed
  show ?thesis
    by (intro conjI c1 c2 c3 c4 c5 c6 c7 c8 c9)
qed

theorem minimax_terminal_scores_witness:
  "minimax [Some MarkO, Some MarkO, Some MarkO, Some MarkX, Some MarkX, None, None, None, None] False MarkO MarkX 0
     = Val (10 - 0) \<and>
   minimax [Some MarkX, Some MarkX, Some MarkX, Some MarkO, Some MarkO, None, None, None, None] True MarkO MarkX 1
     = Val (1 - 10) \<and>
   minimax [Some MarkX, Some MarkO, Some MarkX, Some MarkO, Some MarkX, Some MarkO, Some MarkO, Some MarkX, Some MarkO]
     True MarkO MarkX 4 = Val 0 \<and>
   minimax [Some MarkO, Some MarkO, Some MarkO, Some MarkX, Some MarkX, None, None, None, None] True MarkO MarkX 2
     < minimax [Some MarkO, Some MarkO, Some MarkO, Some MarkX, Some MarkX, None, None, None, None] False MarkO MarkX 0 \<and>
   minimax [Some MarkX, Some MarkX, Some MarkX, Some MarkO, Some MarkO, None, None, None, None] True MarkO MarkX 1
     < minimax [Some MarkX, Some MarkX, Some MarkX, Some MarkO, Some MarkO, None, None, None, None] True MarkO MarkX 3 \<and>
   hasLine MarkO [Some MarkO, Some MarkO, Some MarkO, Some MarkX, Some MarkX, Some MarkX, None, None, None] \<and>
   hasLine MarkX [Some MarkO, Some MarkO, Some MarkO, Some MarkX, Some MarkX, Some MarkX, None, None, None] \<and>
   minimax [Some MarkO, Some MarkO, Some MarkO, Some MarkX, Some MarkX, Some MarkX, None, None, None] False MarkO MarkX 3
     = Val (10 - 3) \<and>
   minimax [Some MarkO, Some MarkO, Some MarkO, Some MarkX, Some MarkX, Some MarkX, None, None, None] False MarkX MarkO 3
     = Val (3 - 10) \<and>
   minimax [None, Some MarkO, Some MarkX, None, Some MarkO, Some MarkX, None, Some MarkO, Some MarkX] True MarkO MarkX 2
     = Val (10 - 2) \<and>
   minimax [None, Some MarkO, Some MarkX, None, Some MarkO, Some MarkX, None, Some MarkO, Some MarkX] True MarkX MarkO 2
     = Val (2 - 10)"
proof -
  let ?a = "[Some MarkO, Some MarkO, Some MarkO, Some MarkX, Some MarkX, None, None, None, None]"
  let ?h = "[Some MarkX, Some MarkX, Some MarkX, Some MarkO, Some MarkO, None, None, None, None]"
  let ?f = "[Some MarkX, Some MarkO, Some MarkX, Some MarkO, Some MarkX, Some MarkO, Some MarkO, Some MarkX, Some MarkO]"
  let ?r = "[Some MarkO, Some MarkO, Some MarkO, Some MarkX, Some MarkX, Some MarkX, None, None, None]"
  let ?c = "[None, Some MarkO, Some MarkX, None, Some MarkO, Some MarkX, None, Some MarkO, Some MarkX]"
  have a: "hasLine MarkO ?a" "\<not> hasLine MarkX ?a"
    by (simp_all add: hasLine_def lineOf_def LINES_def cell_def)
  have h: "hasLine MarkX ?h" "\<not> hasLine MarkO ?h"
    by (simp_all add: hasLine_def lineOf_def LINES_def cell_def)
  have f: "list_all (\<lambda>c. c \<noteq> None) ?f" "\<not> hasLine MarkX ?f" "\<not> hasLine MarkO ?f"
    by (simp_all add: hasLine_def lineOf_def LINES_def cell_def)
  have lt: "(0::int) < 2" "(1::int) < 3" by simp_all
  have r: "hasLine MarkO ?r" "hasLine MarkX ?r"
    by (simp_all add: hasLine_def lineOf_def LINES_def cell_def)
  have rw: "winner (getWinner ?r) = Some MarkO"
    by (simp add: getWinner_def LINES_def cell_def)
  have ne: "MarkO \<noteq> MarkX" by simp
  have c: "(4::nat) < length LINES" "list_all (\<lambda>l. \<not> completed ?c l) (take 4 LINES)"
      "lineOf MarkO ?c (LINES ! 4)"
    by (simp_all add: LINES_def completed_def lineOf_def cell_def)
  have p1: "minimax ?a False MarkO MarkX 0 = Val (10 - 0)"
    using minimax_terminal_scores [where ai = MarkO and board = ?a and human = MarkX and t = False and d = 0,
        THEN conjunct1] a
    by blast
  have p2: "minimax ?h True MarkO MarkX 1 = Val (1 - 10)"
    using minimax_terminal_scores [where ai = MarkO and board = ?h and human = MarkX and t = True and d = 1,
        THEN conjunct2, THEN conjunct1] h
    by blast
  have p3: "minimax ?f True MarkO MarkX 4 = Val 0"
    using minimax_terminal_scores [where ai = MarkO and board = ?f and human = MarkX and t = True and d = 4,
        THEN conjunct2, THEN conjunct2, THEN conjunct1] f
    by blast
  have p4: "minimax ?a True MarkO MarkX 2 < minimax ?a False MarkO MarkX 0"
    using minimax_terminal_scores [where ai = MarkO and board = ?a and human = MarkX and t = False and d = 0
        and board' = ?a and t' = True and d' = 2,
        THEN conjunct2, THEN conjunct2, THEN conjunct2, THEN conjunct1] a lt(1)
    by blast
  have p5: "minimax ?h True MarkO MarkX 1 < minimax ?h True MarkO MarkX 3"
    using minimax_terminal_scores [where ai = MarkO and board = ?h and human = MarkX and t = True and d = 1
        and board' = ?h and t' = True and d' = 3,
        THEN conjunct2, THEN conjunct2, THEN conjunct2, THEN conjunct2, THEN conjunct1] h lt(2)
    by blast
  have p6: "minimax ?r False MarkO MarkX 3 = Val (10 - 3)"
    using minimax_terminal_scores [where ai = MarkO and board = ?r and human = MarkX and t = False and d = 3,
        THEN conjunct2, THEN conjunct2, THEN conjunct2, THEN conjunct2, THEN conjunct2, THEN conjunct1] rw
    by blast
  have p7: "minimax ?r False MarkX MarkO 3 = Val (3 - 10)"
    using minimax_terminal_scores [where ai = MarkX and board = ?r and human = MarkO and t = False and d = 3,
        THEN conjunct2, THEN conjunct2, THEN conjunct2, THEN conjunct2, THEN conjunct2, THEN conjunct2, THEN conjunct1] rw ne
    by blast
  have p8: "minimax ?c True MarkO MarkX 2 = Val (10 - 2)"
    using minimax_terminal_scores [where ai = MarkO and board = ?c and human = MarkX and t = True and d = 2 and i = 4,
        THEN conjunct2, THEN conjunct2, THEN conjunct2, THEN conjunct2, THEN conjunct2, THEN conjunct2, THEN conjunct2, THEN conjunct1] c
    by blast
  have p9: "minimax ?c True MarkX MarkO 2 = Val (2 - 10)"
    using minimax_terminal_scores [where ai = MarkX and board = ?c and human = MarkO and t = True and d = 2 and i = 4,
        THEN conjunct2, THEN conjunct2, THEN conjunct2, THEN conjunct2, THEN conjunct2, THEN conjunct2, THEN conjunct2, THEN conjunct2] c ne
    by blast
  show ?thesis
    by (intro conjI p1 p2 p3 p4 p5 r p6 p7 p8 p9)
qed

theorem minimax_terminal_scores_counterexample:
  "hasLine MarkO [Some MarkX, Some MarkX, Some MarkX, Some MarkO, Some MarkO, Some MarkO, None, None, None] \<and>
   minimax [Some MarkX, Some MarkX, Some MarkX, Some MarkO, Some MarkO, Some MarkO, None, None, None] False MarkO MarkX 0
     = Val (- 10) \<and>
   Val (- 10) \<noteq> Val (10 - 0)"
proof -
  let ?b = "[Some MarkX, Some MarkX, Some MarkX, Some MarkO, Some MarkO, Some MarkO, None, None, None]"
  have "hasLine MarkO ?b"
    by (simp add: hasLine_def lineOf_def LINES_def cell_def)
  moreover have "winner (getWinner ?b) = Some MarkX"
    by (simp add: getWinner_def LINES_def cell_def)
  then have "minimax ?b False MarkO MarkX 0 = Val (- 10)"
    by (simp add: minimax_human_win)
  ultimately show ?thesis by simp
qed

section \<open>Blocking and winning moves\<close>

lemma minimax_children_Val:
  "\<forall>x \<in> set (emptyCells b). \<forall>m t'. \<exists>v. minimax (b[x := Some m]) t' ai human (d + 1) = Val v"
  using minimax_Val by blast

lemma block_score:
  assumes "length (emptyCells b1) \<le> 8" and "ai \<noteq> human"
    and "winner (getWinner b1) \<noteq> Some human" and "\<not> humanCanWin b1 human"
  shows "Val (- 8) \<le> minimax b1 False ai human 0"
proof -
  consider (ai) "winner (getWinner b1) = Some ai"
    | (full) "winner (getWinner b1) \<noteq> Some ai" "list_all (\<lambda>c. c \<noteq> None) b1"
    | (rec) "winner (getWinner b1) \<noteq> Some ai" "\<not> list_all (\<lambda>c. c \<noteq> None) b1"
    by blast
  then show ?thesis
  proof cases
    case ai
    then show ?thesis by (simp add: minimax_ai_win)
  next
    case full
    then have "winner (getWinner b1) = None"
      using assms(2,3) winner_two_marks by blast
    with full show ?thesis by (simp add: minimax_full)
  next
    case rec
    from minimax_recursive [OF rec(1) assms(3) rec(2) minimax_children_Val, of False 0]
    obtain j where j: "j \<in> set (emptyCells b1)"
        "minimax b1 False ai human 0 = minimax (b1[j := Some human]) True ai human 1"
      by auto
    let ?b2 = "b1[j := Some human]"
    have w2: "winner (getWinner ?b2) \<noteq> Some human"
      using assms(4) j(1) by (auto simp: humanCanWin_def list_ex_iff)
    have l2: "length (emptyCells ?b2) \<le> 7"
      using emptyCells_update_less [OF j(1), of human] assms(1) by linarith
    consider (ai2) "winner (getWinner ?b2) = Some ai"
      | (full2) "winner (getWinner ?b2) \<noteq> Some ai" "list_all (\<lambda>c. c \<noteq> None) ?b2"
      | (rec2) "winner (getWinner ?b2) \<noteq> Some ai" "\<not> list_all (\<lambda>c. c \<noteq> None) ?b2"
      by blast
    then have "Val (- 8) \<le> minimax ?b2 True ai human 1"
    proof cases
      case ai2
      then show ?thesis by (simp add: minimax_ai_win)
    next
      case full2
      then have "winner (getWinner ?b2) = None"
        using assms(2) w2 winner_two_marks by blast
      with full2 show ?thesis by (simp add: minimax_full)
    next
      case rec2
      from minimax_recursive [OF rec2(1) w2 rec2(2) minimax_children_Val, of True 1]
      obtain k where k: "k \<in> set (emptyCells ?b2)"
          "minimax ?b2 True ai human 1 = minimax (?b2[k := Some ai]) False ai human 2"
        by auto
      have "2 + int (length (emptyCells (?b2[k := Some ai]))) \<le> 10"
        using emptyCells_update_less [OF k(1), of ai] l2 by linarith
      from minimax_bounds [OF this, of False ai human]
      obtain v where "minimax (?b2[k := Some ai]) False ai human 2 = Val v" "2 - 10 \<le> v"
        by blast
      with k(2) show ?thesis by simp
    qed
    with j(2) show ?thesis by simp
  qed
qed

lemma nonblock_score:
  assumes "ai \<noteq> human" and "winner (getWinner b1) \<noteq> Some ai"
    and "winner (getWinner b1) = Some human \<or> humanCanWin b1 human"
  shows "minimax b1 False ai human 0 \<le> Val (- 9)"
proof (cases "winner (getWinner b1) = Some human")
  case True
  then show ?thesis using assms(1) by (simp add: minimax_human_win)
next
  case False
  with assms(3) obtain j where j: "j \<in> set (emptyCells b1)"
      "winner (getWinner (b1[j := Some human])) = Some human"
    by (auto simp: humanCanWin_def list_ex_iff)
  from j(1) have "emptyCells b1 \<noteq> []" by auto
  then have nf: "\<not> list_all (\<lambda>c. c \<noteq> None) b1"
    by (simp add: emptyCells_Nil_iff)
  let ?f = "\<lambda>idx. minimax (b1[idx := Some human]) True ai human 1"
  have "minimax b1 False ai human 0 = fold (\<lambda>idx best. min best (?f idx)) (emptyCells b1) PosInfinity"
    using assms(2) False nf by (subst minimax_unfold) simp
  also have "\<dots> \<le> ?f j"
    by (rule fold_min_le [OF j(1), of ?f PosInfinity])
  also have "\<dots> = Val (1 - 10)"
    using j(2) assms(1) by (simp add: minimax_human_win)
  finally show ?thesis by simp
qed

lemma getBestMove_single:
  assumes "fold (getBestMove_step board ai human) (emptyCells board) (NegInfinity, []) = (S, [m])"
    and "\<not> list_all (\<lambda>c. c \<noteq> None) board" and "0 \<le> r" and "r < 1"
  shows "getBestMove r board ai human = Index m"
proof -
  have ne: "emptyCells board \<noteq> []"
    using assms(2) by (simp add: emptyCells_Nil_iff)
  have "\<lfloor>r\<rfloor> = 0" using assms(3,4) by (simp add: floor_eq_iff)
  then show ?thesis
    using ne assms(1,3,4) by (simp add: getBestMove_def js_index_def)
qed

lemma scenario_block_fold:
  "fold (getBestMove_step [Some MarkX, Some MarkX, None, None, Some MarkO, None, None, None, None] MarkO MarkX)
     (emptyCells [Some MarkX, Some MarkX, None, None, Some MarkO, None, None, None, None])
     (NegInfinity, []) = (Val 0, [2])"
  by code_simp

lemma scenario_win_fold:
  "fold (getBestMove_step [Some MarkO, Some MarkO, None, Some MarkX, Some MarkX, None, None, None, None] MarkO MarkX)
     (emptyCells [Some MarkO, Some MarkO, None, Some MarkX, Some MarkX, None, None, None, None])
     (NegInfinity, []) = (Val 10, [2])"
  by code_simp

text \<open>
  C6 (as amended). A blocking index is an empty cell \<open>m\<close> such that, once the AI has played
  \<open>m\<close>, the human has not won and has no immediately winning reply. On a 9-cell board
  with two distinct marks on which some blocking index exists, \<open>getBestMove\<close> returns, for
  every outcome of the random draw, either a blocking index or an index after which
  \<open>getWinner\<close> reports the AI mark as the winner. When the AI has no completed line on
  the input board, such an index completes a line for the AI. When no AI move makes
  \<open>getWinner\<close> report the AI mark, the returned index is a blocking index.
\<close>

theorem getBestMove_blocks_or_wins:
  assumes "length board = 9" and "ai \<noteq> human"
    and "list_ex (blocks board ai human) (emptyCells board)"
    and "0 \<le> r" and "r < 1"
  shows "\<exists>m. getBestMove r board ai human = Index m \<and>
           (blocks board ai human m \<or> winner (getWinner (board[m := Some ai])) = Some ai) \<and>
           (\<not> hasLine ai board \<and> winner (getWinner (board[m := Some ai])) = Some ai
              \<longrightarrow> completesLine board ai m) \<and>
           (\<not> list_ex (\<lambda>k. winner (getWinner (board[k := Some ai])) = Some ai) (emptyCells board)
              \<longrightarrow> blocks board ai human m)"
proof -
  from assms(3) obtain m0 where m0: "blocks board ai human m0"
    by (auto simp: list_ex_iff)
  then have e0: "m0 \<in> set (emptyCells board)" by (simp add: blocks_def)
  then have ne: "emptyCells board \<noteq> []" by auto
  have "length (emptyCells board) \<le> 9"
    using assms(1) length_filter_le [of "\<lambda>i. board ! i = None" "[0 ..< length board]"]
    by (simp add: emptyCells_def)
  then have l1: "length (emptyCells (board[x := Some ai])) \<le> 8"
    if "x \<in> set (emptyCells board)" for x
    using emptyCells_update_less [OF that, of ai] by linarith
  have s0: "Val (- 8) \<le> minimax (board[m0 := Some ai]) False ai human 0"
    using m0 block_score [OF l1 [OF e0] assms(2)] by (simp add: blocks_def)
  from ne assms(4,5) obtain m S Ms where m: "getBestMove r board ai human = Index m"
      "fold (getBestMove_step board ai human) (emptyCells board) (NegInfinity, []) = (S, Ms)"
      "m \<in> set Ms"
    by (rule getBestMove_Index)
  from getBestMove_fold_inv [OF m(2)] m(3) e0
  have em: "m \<in> set (emptyCells board)"
    and sm: "minimax (board[m := Some ai]) False ai human 0 = S"
    and s0S: "minimax (board[m0 := Some ai]) False ai human 0 \<le> S"
    by blast+
  from s0 s0S sm have ge: "Val (- 8) \<le> minimax (board[m := Some ai]) False ai human 0"
    by simp
  have main: "blocks board ai human m \<or> winner (getWinner (board[m := Some ai])) = Some ai"
  proof (rule ccontr)
    assume "\<not> (blocks board ai human m \<or> winner (getWinner (board[m := Some ai])) = Some ai)"
    then have nw: "winner (getWinner (board[m := Some ai])) \<noteq> Some ai"
      and nb: "winner (getWinner (board[m := Some ai])) = Some human \<or>
               humanCanWin (board[m := Some ai]) human"
      using em by (auto simp: blocks_def)
    from nonblock_score [OF assms(2) nw nb] ge have "Val (- 8) \<le> Val (- 9)"
      by (rule order_trans [rotated])
    then show False by simp
  qed
  have compl: "completesLine board ai m"
    if "\<not> hasLine ai board \<and> winner (getWinner (board[m := Some ai])) = Some ai"
    using that winner_completesLine by blast
  have nowin: "blocks board ai human m"
    if "\<not> list_ex (\<lambda>k. winner (getWinner (board[k := Some ai])) = Some ai) (emptyCells board)"
    using that main em by (auto simp: list_ex_iff)
  from m(1) main compl nowin show ?thesis by blast
qed

theorem getBestMove_blocks_or_wins_witness:
  "humanCanWin [Some MarkX, Some MarkX, None, None, Some MarkO, None, None, None, None] MarkX \<and>
   list_ex (blocks [Some MarkX, Some MarkX, None, None, Some MarkO, None, None, None, None] MarkO MarkX)
     (emptyCells [Some MarkX, Some MarkX, None, None, Some MarkO, None, None, None, None]) \<and>
   \<not> list_ex (\<lambda>k. winner (getWinner ([Some MarkX, Some MarkX, None, None, Some MarkO, None, None, None, None][k := Some MarkO]))
                  = Some MarkO)
       (emptyCells [Some MarkX, Some MarkX, None, None, Some MarkO, None, None, None, None]) \<and>
   (\<exists>m. getBestMove (1 / 2) [Some MarkX, Some MarkX, None, None, Some MarkO, None, None, None, None] MarkO MarkX
          = Index m \<and>
        blocks [Some MarkX, Some MarkX, None, None, Some MarkO, None, None, None, None] MarkO MarkX m) \<and>
   humanCanWin [Some MarkO, Some MarkO, None, Some MarkX, Some MarkX, None, None, None, None] MarkX \<and>
   list_ex (blocks [Some MarkO, Some MarkO, None, Some MarkX, Some MarkX, None, None, None, None] MarkO MarkX)
     (emptyCells [Some MarkO, Some MarkO, None, Some MarkX, Some MarkX, None, None, None, None]) \<and>
   \<not> hasLine MarkO [Some MarkO, Some MarkO, None, Some MarkX, Some MarkX, None, None, None, None] \<and>
   getBestMove (1 / 2) [Some MarkO, Some MarkO, None, Some MarkX, Some MarkX, None, None, None, None] MarkO MarkX
     = Index 2 \<and>
   completesLine [Some MarkO, Some MarkO, None, Some MarkX, Some MarkX, None, None, None, None] MarkO 2"
proof -
  let ?b = "[Some MarkX, Some MarkX, None, None, Some MarkO, None, None, None, None]"
  let ?w = "[Some MarkO, Some MarkO, None, Some MarkX, Some MarkX, None, None, None, None]"
  have h1: "length ?b = 9" "length ?w = 9" by simp_all
  have h2: "MarkO \<noteq> MarkX" by simp
  have h4: "(0::real) \<le> 1 / 2" and h5: "(1::real) / 2 < 1" by simp_all
  have b0: "humanCanWin ?b MarkX" by code_simp
  have b3: "list_ex (blocks ?b MarkO MarkX) (emptyCells ?b)" by code_simp
  have b6: "\<not> list_ex (\<lambda>k. winner (getWinner (?b[k := Some MarkO])) = Some MarkO) (emptyCells ?b)"
    by code_simp
  from getBestMove_blocks_or_wins [OF h1(1) h2 b3 h4 h5] b6
  have pb: "\<exists>m. getBestMove (1 / 2) ?b MarkO MarkX = Index m \<and> blocks ?b MarkO MarkX m"
    by blast
  have w0: "humanCanWin ?w MarkX" by code_simp
  have w3: "list_ex (blocks ?w MarkO MarkX) (emptyCells ?w)" by code_simp
  have w6: "\<not> hasLine MarkO ?w"
    by (simp add: hasLine_def lineOf_def LINES_def cell_def)
  have w7: "getBestMove (1 / 2) ?w MarkO MarkX = Index 2"
    by (rule getBestMove_single [OF scenario_win_fold]) simp_all
  have w8: "winner (getWinner (?w[2 := Some MarkO])) = Some MarkO"
    by (simp add: getWinner_def LINES_def cell_def)
  from getBestMove_blocks_or_wins [OF h1(2) h2 w3 h4 h5] w6 w7 w8
  have pw: "completesLine ?w MarkO 2" by auto
  from b0 b3 b6 pb w0 w3 w6 w7 pw show ?thesis by blast
qed

lemma counterexample_fold:
  "fold (getBestMove_step [Some MarkX, Some MarkX, None, Some MarkO, Some MarkO, None, Some MarkX, None, None] MarkO MarkX)
     (emptyCells [Some MarkX, Some MarkX, None, Some MarkO, Some MarkO, None, Some MarkX, None, None])
     (NegInfinity, []) = (Val 10, [5])"
  by code_simp

theorem getBestMove_blocks_counterexample:
  "humanCanWin [Some MarkX, Some MarkX, None, Some MarkO, Some MarkO, None, Some MarkX, None, None] MarkX \<and>
   blocks [Some MarkX, Some MarkX, None, Some MarkO, Some MarkO, None, Some MarkX, None, None] MarkO MarkX 2 \<and>
   getBestMove 0 [Some MarkX, Some MarkX, None, Some MarkO, Some MarkO, None, Some MarkX, None, None] MarkO MarkX
     = Index 5 \<and>
   \<not> blocks [Some MarkX, Some MarkX, None, Some MarkO, Some MarkO, None, Some MarkX, None, None] MarkO MarkX 5 \<and>
   winner (getWinner ([Some MarkX, Some MarkX, None, Some MarkO, Some MarkO, None, Some MarkX, None, None][2 := Some MarkX]))
     = Some MarkX"
proof -
  let ?b = "[Some MarkX, Some MarkX, None, Some MarkO, Some MarkO, None, Some MarkX, None, None]"
  have "humanCanWin ?b MarkX" by code_simp
  moreover have "blocks ?b MarkO MarkX 2" by code_simp
  moreover have "\<not> blocks ?b MarkO MarkX 5" by code_simp
  moreover have "getBestMove 0 ?b MarkO MarkX = Index 5"
    by (rule getBestMove_single [OF counterexample_fold]) simp_all
  moreover have "winner (getWinner (?b[2 := Some MarkX])) = Some MarkX" by code_simp
  ultimately show ?thesis by blast
qed

section \<open>Concrete scenarios\<close>

text \<open>
  C7. On the board \<open>[X, X, _, _, O, _, _, _, _]\<close> with the AI playing \<open>O\<close> against \<open>X\<close>,
  the loop of \<open>getBestMove\<close> ends with index 2 as the only move of maximal score, and
  \<open>getBestMove\<close> returns index 2 for every outcome of the random draw.
\<close>

theorem getBestMove_scenario_block:
  assumes "0 \<le> r" and "r < 1"
  shows "getBestMove r [Some MarkX, Some MarkX, None, None, Some MarkO, None, None, None, None] MarkO MarkX
           = Index 2 \<and>
         snd (fold (getBestMove_step [Some MarkX, Some MarkX, None, None, Some MarkO, None, None, None, None] MarkO MarkX)
                (emptyCells [Some MarkX, Some MarkX, None, None, Some MarkO, None, None, None, None])
                (NegInfinity, [])) = [2]"
proof
  show "getBestMove r [Some MarkX, Some MarkX, None, None, Some MarkO, None, None, None, None] MarkO MarkX
          = Index 2"
    using assms by (intro getBestMove_single [OF scenario_block_fold]) simp_all
  show "snd (fold (getBestMove_step [Some MarkX, Some MarkX, None, None, Some MarkO, None, None, None, None] MarkO MarkX)
               (emptyCells [Some MarkX, Some MarkX, None, None, Some MarkO, None, None, None, None])
               (NegInfinity, [])) = [2]"
    by (simp add: scenario_block_fold)
qed

theorem getBestMove_scenario_block_witness:
  "getBestMove 0 [Some MarkX, Some MarkX, None, None, Some MarkO, None, None, None, None] MarkO MarkX = Index 2 \<and>
   getBestMove (999 / 1000) [Some MarkX, Some MarkX, None, None, Some MarkO, None, None, None, None] MarkO MarkX
     = Index 2"
proof -
  have a: "(0::real) \<le> 0" "(0::real) < 1" by simp_all
  have b: "(0::real) \<le> 999 / 1000" "(999::real) / 1000 < 1" by simp_all
  from getBestMove_scenario_block [OF a] getBestMove_scenario_block [OF b]
  show ?thesis by blast
qed

text \<open>
  C8. On the board \<open>[O, O, _, X, X, _, _, _, _]\<close> with the AI playing \<open>O\<close> against \<open>X\<close>,
  \<open>getBestMove\<close> returns index 2, which completes the AI's top row, for every outcome of
  the random draw; index 5, which would block the human's middle row, is not returned.
\<close>

theorem getBestMove_scenario_win:
  assumes "0 \<le> r" and "r < 1"
  shows "getBestMove r [Some MarkO, Some MarkO, None, Some MarkX, Some MarkX, None, None, None, None] MarkO MarkX
           = Index 2 \<and>
         getWinner ([Some MarkO, Some MarkO, None, Some MarkX, Some MarkX, None, None, None, None][2 := Some MarkO])
           = \<lparr>winner = Some MarkO, line = Some [0, 1, 2]\<rparr>"
proof
  show "getBestMove r [Some MarkO, Some MarkO, None, Some MarkX, Some MarkX, None, None, None, None] MarkO MarkX
          = Index 2"
    using assms by (intro getBestMove_single [OF scenario_win_fold]) simp_all
  show "getWinner ([Some MarkO, Some MarkO, None, Some MarkX, Some MarkX, None, None, None, None][2 := Some MarkO])
          = \<lparr>winner = Some MarkO, line = Some [0, 1, 2]\<rparr>"
    by (simp add: getWinner_def LINES_def cell_def)
qed

theorem getBestMove_scenario_win_witness:
  "getBestMove 0 [Some MarkO, Some MarkO, None, Some MarkX, Some MarkX, None, None, None, None] MarkO MarkX = Index 2 \<and>
   getBestMove (999 / 1000) [Some MarkO, Some MarkO, None, Some MarkX, Some MarkX, None, None, None, None] MarkO MarkX
     = Index 2"
proof -
  have a: "(0::real) \<le> 0" "(0::real) < 1" by simp_all
  have b: "(0::real) \<le> 999 / 1000" "(999::real) / 1000 < 1" by simp_all
  from getBestMove_scenario_win [OF a] getBestMove_scenario_win [OF b]
  show ?thesis by blast
qed

end
